theory Spec2Isabelle
  imports Main "HOL-Library.Char_ord" "HOL-Library.List_Lexorder" "HOL-Library.Product_Lexorder"
    "HOL-Library.Multiset"
begin

section \<open>Strings as the parser sees them\<close>

text \<open>
  The parser of \<^verbatim>\<open>src/parser.py\<close> works on Python \<^verbatim>\<open>str\<close> values. A string is
  modelled as a \<^typ>\<open>string\<close>, one \<^typ>\<open>char\<close> per code point, which covers the code points
  0 to 255. The character classes below are those of CPython for that range:
  \<^verbatim>\<open>str.strip()\<close> and the regular-expression class \<^verbatim>\<open>\s\<close> use the same whitespace test,
  \<^verbatim>\<open>\d\<close> is the decimal digits, \<^verbatim>\<open>\w\<close> is the alphanumerics and the underscore.
\<close>

definition is_space :: "char \<Rightarrow> bool" where
  "is_space c = (c \<in> set [CHR 0x09, CHR 0x0A, CHR 0x0B, CHR 0x0C, CHR 0x0D,
                           CHR 0x1C, CHR 0x1D, CHR 0x1E, CHR 0x1F, CHR 0x20,
                           CHR 0x85, CHR 0xA0])"

definition is_digit :: "char \<Rightarrow> bool" where
  "is_digit c = (c \<in> set ''0123456789'')"

definition upper_ascii :: string where
  "upper_ascii = ''ABCDEFGHIJKLMNOPQRSTUVWXYZ''"

definition lower_ascii :: string where
  "lower_ascii = ''abcdefghijklmnopqrstuvwxyz''"

definition upper_latin1 :: string where
  \<comment> \<open>the upper-case letters 0xC0 to 0xDE, without the multiplication sign 0xD7\<close>
  "upper_latin1 = [CHR 0xC0, CHR 0xC1, CHR 0xC2, CHR 0xC3, CHR 0xC4, CHR 0xC5,
      CHR 0xC6, CHR 0xC7, CHR 0xC8, CHR 0xC9, CHR 0xCA, CHR 0xCB, CHR 0xCC, CHR 0xCD, CHR 0xCE,
      CHR 0xCF, CHR 0xD0, CHR 0xD1, CHR 0xD2, CHR 0xD3, CHR 0xD4, CHR 0xD5, CHR 0xD6, CHR 0xD8,
      CHR 0xD9, CHR 0xDA, CHR 0xDB, CHR 0xDC, CHR 0xDD, CHR 0xDE]"

definition lower_latin1 :: string where
  \<comment> \<open>their lower-case forms 0xE0 to 0xFE, without the division sign 0xF7, in the same order\<close>
  "lower_latin1 = [CHR 0xE0, CHR 0xE1, CHR 0xE2, CHR 0xE3, CHR 0xE4, CHR 0xE5,
      CHR 0xE6, CHR 0xE7, CHR 0xE8, CHR 0xE9, CHR 0xEA, CHR 0xEB, CHR 0xEC, CHR 0xED, CHR 0xEE,
      CHR 0xEF, CHR 0xF0, CHR 0xF1, CHR 0xF2, CHR 0xF3, CHR 0xF4, CHR 0xF5, CHR 0xF6, CHR 0xF8,
      CHR 0xF9, CHR 0xFA, CHR 0xFB, CHR 0xFC, CHR 0xFD, CHR 0xFE]"

definition is_word :: "char \<Rightarrow> bool" where
  \<comment> \<open>\<^verbatim>\<open>\w\<close>: the letters (with the feminine and masculine ordinal signs, the micro sign,
      the sharp s and the y with diaeresis), the digits and numeric signs (superscripts one to
      three, the fractions), and the underscore\<close>
  "is_word c = (c \<in> set (upper_ascii @ lower_ascii @ ''0123456789_'' @ upper_latin1 @ lower_latin1
      @ [CHR 0xAA, CHR 0xB2, CHR 0xB3, CHR 0xB5, CHR 0xB9, CHR 0xBA,
         CHR 0xBC, CHR 0xBD, CHR 0xBE, CHR 0xDF, CHR 0xFF]))"

definition lower_char :: "char \<Rightarrow> char" where
  "lower_char c =
     (case map_of (zip (upper_ascii @ upper_latin1) (lower_ascii @ lower_latin1)) c of
        Some d \<Rightarrow> d | None \<Rightarrow> c)"

definition lower :: "string \<Rightarrow> string" where
  \<comment> \<open>\<^verbatim>\<open>s.lower()\<close>\<close>
  "lower s = map lower_char s"

definition upper_char :: "char \<Rightarrow> char" where
  \<comment> \<open>\<^verbatim>\<open>c.upper()\<close> of a one-character string; the parser applies it only to a character
      that matched \<^verbatim>\<open>[ABCD]\<close> ignoring case, so only the ASCII letters are listed\<close>
  "upper_char c = (case map_of (zip lower_ascii upper_ascii) c of Some d \<Rightarrow> d | None \<Rightarrow> c)"

definition strip :: "string \<Rightarrow> string" where
  \<comment> \<open>\<^verbatim>\<open>s.strip()\<close>\<close>
  "strip s = rev (dropWhile is_space (rev (dropWhile is_space s)))"

fun startswith :: "string \<Rightarrow> string \<Rightarrow> bool" where
  \<comment> \<open>\<^verbatim>\<open>s.startswith(p)\<close>\<close>
  "startswith s [] = True"
| "startswith [] (p # ps) = False"
| "startswith (c # cs) (p # ps) = (c = p \<and> startswith cs ps)"

fun contains :: "string \<Rightarrow> string \<Rightarrow> bool" where
  \<comment> \<open>\<^verbatim>\<open>key in s\<close>\<close>
  "contains [] key = (key = [])"
| "contains (c # cs) key = (startswith (c # cs) key \<or> contains cs key)"

fun join :: "string \<Rightarrow> string list \<Rightarrow> string" where
  \<comment> \<open>\<^verbatim>\<open>sep.join(xs)\<close>\<close>
  "join sep [] = []"
| "join sep [x] = x"
| "join sep (x # y # ys) = x @ sep @ join sep (y # ys)"

function sub_spaces :: "string \<Rightarrow> string" where
  \<comment> \<open>\<^verbatim>\<open>re.sub(r"\s+", " ", s)\<close>: every maximal run of whitespace becomes one space\<close>
  "sub_spaces [] = []"
| "sub_spaces (c # cs) =
     (if is_space c then CHR '' '' # sub_spaces (dropWhile is_space cs)
      else c # sub_spaces cs)"
  by pat_completeness auto
termination
  by (relation "measure length") (auto simp: length_dropWhile_le less_Suc_eq_le)

definition clean_line :: "string \<Rightarrow> string" where
  "clean_line s = sub_spaces (strip s)"

definition EXCLUDE_SUBSTRS :: "string list" where
  "EXCLUDE_SUBSTRS =
    [''answer all questions'', ''name & signature'', ''department of data science'',
     ''max. marks'', ''time duration'', ''affiliated to'', ''college'',
     ''batch:'', ''class:'', ''subject title:'', ''semester:'', ''mid term'', ''reviewer'']"

definition is_excluded :: "string \<Rightarrow> bool" where
  "is_excluded line = (let l = lower line in list_ex (\<lambda>key. contains l key) EXCLUDE_SUBSTRS)"

section \<open>The regular expressions\<close>

text \<open>
  Each pattern of the parser is a function on the line. The quantifiers are greedy and
  the patterns are anchored at the start of the line, so a match is decided from left to
  right: when the greedy reading of the prefix fails to reach the end of the line, a shorter
  reading of a quantifier leaves a longer remainder with the same offending character in it,
  and fails too. Hence each function reads the prefix greedily and then checks the remainder.
\<close>

definition take_num :: "string \<Rightarrow> (string \<times> string) option" where
  \<comment> \<open>\<^verbatim>\<open>^(\d{1,2})\<close>: one or two digits (two when there are two), and what follows them\<close>
  "take_num s =
     (case s of
        [] \<Rightarrow> None
      | c1 # r1 \<Rightarrow>
          if is_digit c1 then
            (case r1 of
               [] \<Rightarrow> Some ([c1], [])
             | c2 # r2 \<Rightarrow> if is_digit c2 then Some ([c1, c2], r2) else Some ([c1], r1))
          else None)"

definition rest_to_end :: "string \<Rightarrow> string option" where
  \<comment> \<open>\<^verbatim>\<open>(.*)$\<close>: the dot matches every character but the newline, and the dollar matches at
      the end of the string or before a newline that ends it\<close>
  "rest_to_end r =
     (if CHR 0x0A \<notin> set r then Some r
      else if last r = CHR 0x0A \<and> CHR 0x0A \<notin> set (butlast r) then Some (butlast r)
      else None)"

definition match_num_text :: "string \<Rightarrow> (string \<times> string) option" where
  \<comment> \<open>\<^verbatim>\<open>re.match(r"^(\d{1,2})\s+(.*)$", line)\<close> and its two groups\<close>
  "match_num_text line =
     (case take_num line of
        None \<Rightarrow> None
      | Some (qnum, r) \<Rightarrow>
          (case r of
             [] \<Rightarrow> None
           | c # r' \<Rightarrow>
               if is_space c then
                 (case rest_to_end (dropWhile is_space r') of
                    None \<Rightarrow> None
                  | Some stem_text \<Rightarrow> Some (qnum, stem_text))
               else None))"

definition fullmatch_num :: "string \<Rightarrow> bool" where
  \<comment> \<open>\<^verbatim>\<open>re.fullmatch(r"\d{1,2}", line)\<close>\<close>
  "fullmatch_num line = (case take_num line of Some (qnum, []) \<Rightarrow> True | _ \<Rightarrow> False)"

definition match_option :: "string \<Rightarrow> bool" where
  \<comment> \<open>\<^verbatim>\<open>re.match(r"^[ABCD]\b", line, re.I)\<close>: a letter A to D of either case, then a
      word boundary: the end of the line or a character that is not a word character\<close>
  "match_option line =
     (case line of
        [] \<Rightarrow> False
      | c # r \<Rightarrow> c \<in> set ''ABCDabcd'' \<and> (case r of [] \<Rightarrow> True | d # r' \<Rightarrow> \<not> is_word d))"

definition take_variant :: "string \<Rightarrow> string option \<times> string" where
  \<comment> \<open>\<^verbatim>\<open>([AB])?\<close>: the letter when the string starts with one, and what follows\<close>
  "take_variant r =
     (case r of
        [] \<Rightarrow> (None, r)
      | c # r' \<Rightarrow> if c = CHR ''A'' \<or> c = CHR ''B'' then (Some [c], r') else (None, r))"

definition match_open_bc :: "string \<Rightarrow> (string \<times> string option \<times> string) option" where
  \<comment> \<open>\<^verbatim>\<open>re.match(r"^(\d{1,2})\s*([AB])?\s*(.*)$", line)\<close> and its three groups; the second
      is \<^verbatim>\<open>None\<close> when the letter is absent\<close>
  "match_open_bc line =
     (case take_num line of
        None \<Rightarrow> None
      | Some (qnum, r) \<Rightarrow>
          (case take_variant (dropWhile is_space r) of
             (ab, r2) \<Rightarrow>
               (case rest_to_end (dropWhile is_space r2) of
                  None \<Rightarrow> None
                | Some rest \<Rightarrow> Some (qnum, ab, rest))))"

definition match_next_open :: "string \<Rightarrow> bool" where
  \<comment> \<open>\<^verbatim>\<open>re.match(r"^\d{1,2}\s*[AB]?", line)\<close>: after the digits nothing more is required\<close>
  "match_next_open line = (take_num line \<noteq> None)"

definition match_leading_int :: "string \<Rightarrow> string option" where
  \<comment> \<open>\<^verbatim>\<open>re.match(r"^\s*(\d+)", label)\<close> and its group\<close>
  "match_leading_int label =
     (let ds = takeWhile is_digit (dropWhile is_space label)
      in if ds = [] then None else Some ds)"

section \<open>The extraction loop\<close>

text \<open>
  A question is the dictionary with the keys \<^verbatim>\<open>section\<close>, \<^verbatim>\<open>label\<close> and \<^verbatim>\<open>text\<close> that
  \<^verbatim>\<open>extract_questions\<close> appends to its result. Reading a list or a string by index raises
  \<^verbatim>\<open>IndexError\<close> out of range; the model makes that a value.
\<close>

record question =
  q_section :: string
  q_label :: string
  q_text :: string

datatype error = IndexError

definition line_at :: "string list \<Rightarrow> nat \<Rightarrow> error + string" where
  \<comment> \<open>\<^verbatim>\<open>lines[i]\<close> for an index that is not negative\<close>
  "line_at lines i = (if i < length lines then Inr (lines ! i) else Inl IndexError)"

definition first_char :: "string \<Rightarrow> error + char" where
  \<comment> \<open>\<^verbatim>\<open>s[0]\<close>\<close>
  "first_char s = (case s of [] \<Rightarrow> Inl IndexError | c # r \<Rightarrow> Inr c)"

fun dedup_lines :: "string option \<Rightarrow> string list \<Rightarrow> string list" where
  \<comment> \<open>the first loop of \<^verbatim>\<open>extract_questions\<close>: \<^verbatim>\<open>prev\<close> starts as \<^verbatim>\<open>None\<close> and becomes
      every cleaned line in turn, kept or not\<close>
  "dedup_lines prev [] = []"
| "dedup_lines prev (raw # raws) =
     (let l = clean_line raw
      in (if l \<noteq> [] \<and> Some l \<noteq> prev then [l] else []) @ dedup_lines (Some l) raws)"

function collect_options ::
  "string list \<Rightarrow> nat \<Rightarrow> (string \<rightharpoonup> string) \<Rightarrow> error + nat \<times> (string \<rightharpoonup> string)" where
  \<comment> \<open>the loop that collects the option lines into the dictionary \<^verbatim>\<open>options\<close>\<close>
  "collect_options lines i options =
     (if i < length lines then
        (case line_at lines i of
           Inl e \<Rightarrow> Inl e
         | Inr l \<Rightarrow>
             if match_option l then
               (case first_char l of
                  Inl e \<Rightarrow> Inl e
                | Inr c \<Rightarrow>
                    collect_options lines (i + 1) (options([upper_char c] \<mapsto> strip (drop 1 l))))
             else Inr (i, options))
      else Inr (i, options))"
  by pat_completeness auto
termination
  by (relation "measure (\<lambda>(lines, i, options). length lines - i)") auto

definition build_text :: "string \<Rightarrow> (string \<rightharpoonup> string) \<Rightarrow> string" where
  \<comment> \<open>the loop over the letters A, B, C, D that appends the options present to the stem\<close>
  "build_text stem_text options =
     foldl (\<lambda>t letter. case options letter of
                          None \<Rightarrow> t
                        | Some v \<Rightarrow> t @ [CHR 0x0A] @ letter @ ''. '' @ v)
           stem_text [''A'', ''B'', ''C'', ''D'']"

function collect_block ::
  "string list \<Rightarrow> nat \<Rightarrow> string \<Rightarrow> string list \<Rightarrow> error + nat \<times> string \<times> string list" where
  \<comment> \<open>the loop that builds the block of a question of section B or C\<close>
  "collect_block lines i ab block =
     (if i < length lines then
        (case line_at lines i of
           Inl e \<Rightarrow> Inl e
         | Inr l \<Rightarrow>
             if \<not> match_next_open l \<and> \<not> startswith (lower l) ''section'' then
               (if \<not> is_excluded l \<and> l \<noteq> ''(OR)'' then
                  (if (l = ''A'' \<or> l = ''B'') \<and> block = []
                   then collect_block lines (i + 1) l block
                   else collect_block lines (i + 1) ab (block @ [l]))
                else collect_block lines (i + 1) ab block)
             else Inr (i, ab, block))
      else Inr (i, ab, block))"
  by pat_completeness auto
termination
  by (relation "measure (\<lambda>(lines, i, ab, block). length lines - i)") auto

text \<open>
  The state of the main loop: the current section (\<^verbatim>\<open>None\<close> at first), the questions found
  so far and the cursor \<^verbatim>\<open>i\<close>.
\<close>

record scan_state =
  cur_section :: "string option"
  result :: "question list"
  pos :: nat

definition finish_a ::
  "string list \<Rightarrow> scan_state \<Rightarrow> string \<Rightarrow> string \<Rightarrow> nat \<Rightarrow> error + scan_state" where
  \<comment> \<open>section A, once the number and the stem are known and the cursor is at \<^verbatim>\<open>i\<close>:
      collect the options, build the text, append the question\<close>
  "finish_a lines st qnum stem_text i =
     (case collect_options lines i Map.empty of
        Inl e \<Rightarrow> Inl e
      | Inr (i', options) \<Rightarrow>
          Inr (st\<lparr>result := result st @
                     [\<lparr>q_section = ''A'', q_label = qnum,
                       q_text = build_text stem_text options\<rparr>],
                  pos := i'\<rparr>))"

definition section_a :: "string list \<Rightarrow> scan_state \<Rightarrow> string \<Rightarrow> error + scan_state" where
  \<comment> \<open>the branch \<^verbatim>\<open>if section == "A"\<close> for the line at the cursor\<close>
  "section_a lines st line =
     (let i = pos st in
      case match_num_text line of
        Some (qnum, stem_text) \<Rightarrow> finish_a lines st qnum stem_text (i + 1)
      | None \<Rightarrow>
          if fullmatch_num line then
            (if i + 1 < length lines then
               (case line_at lines (i + 1) of
                  Inl e \<Rightarrow> Inl e
                | Inr nxt \<Rightarrow>
                    if \<not> match_option nxt then finish_a lines st line (strip nxt) (i + 2)
                    else finish_a lines st line [] (i + 1))
             else finish_a lines st line [] (i + 1))
          else Inr (st\<lparr>pos := i + 1\<rparr>))"

definition section_bc :: "string list \<Rightarrow> scan_state \<Rightarrow> string \<Rightarrow> string \<Rightarrow> error + scan_state" where
  \<comment> \<open>what follows the branch of section A, for the line at the cursor and the current
      section \<^verbatim>\<open>sec\<close>\<close>
  "section_bc lines st sec line =
     (let i = pos st in
      case match_open_bc line of
        Some (qnum, ab_group, rest) \<Rightarrow>
          if sec = ''B'' \<or> sec = ''C'' then
            (let ab = (case ab_group of None \<Rightarrow> [] | Some a \<Rightarrow> a);
                 block = (if rest \<noteq> [] then [rest] else [])
             in case collect_block lines (i + 1) ab block of
                  Inl e \<Rightarrow> Inl e
                | Inr (i', ab', block') \<Rightarrow>
                    Inr (st\<lparr>result := result st @
                               [\<lparr>q_section = sec, q_label = strip (qnum @ '' '' @ ab'),
                                 q_text = join '' '' block'\<rparr>],
                            pos := i'\<rparr>))
          else Inr (st\<lparr>pos := i + 1\<rparr>)
      | None \<Rightarrow> Inr (st\<lparr>pos := i + 1\<rparr>))"

definition loop_body :: "string list \<Rightarrow> scan_state \<Rightarrow> error + scan_state" where
  \<comment> \<open>one iteration of \<^verbatim>\<open>while i < len(lines)\<close>\<close>
  "loop_body lines st =
     (let i = pos st in
      case line_at lines i of
        Inl e \<Rightarrow> Inl e
      | Inr line \<Rightarrow>
          if startswith (lower line) ''section a''
            then Inr (st\<lparr>cur_section := Some ''A'', pos := i + 1\<rparr>)
          else if startswith (lower line) ''section b''
            then Inr (st\<lparr>cur_section := Some ''B'', pos := i + 1\<rparr>)
          else if startswith (lower line) ''section c''
            then Inr (st\<lparr>cur_section := Some ''C'', pos := i + 1\<rparr>)
          else
            (case cur_section st of
               None \<Rightarrow> Inr (st\<lparr>pos := i + 1\<rparr>)
             | Some sec \<Rightarrow>
                 if sec = [] \<or> is_excluded line then Inr (st\<lparr>pos := i + 1\<rparr>)
                 else if sec = ''A'' then section_a lines st line
                 else section_bc lines st sec line))"

declare collect_options.simps [simp del] collect_block.simps [simp del]

lemma collect_options_advances:
  "collect_options lines i options = Inr (i', options') \<Longrightarrow> i \<le> i'"
proof (induction lines i options rule: collect_options.induct)
  case (1 lines i options)
  show ?case
  proof (cases "i < length lines \<and> match_option (lines ! i)")
    case False
    with "1.prems" show ?thesis
      by (subst (asm) collect_options.simps) (auto simp add: line_at_def split: if_splits)
  next
    case True
    then obtain c r where l: "lines ! i = c # r"
      by (cases "lines ! i") (auto simp: match_option_def)
    have a: "i < length lines" and b: "line_at lines i = Inr (lines ! i)"
      and c: "match_option (lines ! i)" and d: "first_char (lines ! i) = Inr c"
      using True l by (simp_all add: line_at_def first_char_def)
    from "1.prems" have "collect_options lines (i + 1)
          (options([upper_char c] \<mapsto> strip (drop 1 (lines ! i)))) = Inr (i', options')"
      by (subst (asm) collect_options.simps) (simp add: a b c d)
    from "1.IH"[OF a b c d this] show ?thesis by simp
  qed
qed

lemma collect_block_advances:
  "collect_block lines i ab block = Inr (i', ab', block') \<Longrightarrow> i \<le> i'"
proof (induction lines i ab block rule: collect_block.induct)
  case (1 lines i ab block)
  from "1.prems" show ?case
    apply (subst (asm) collect_block.simps)
    apply (simp add: line_at_def split: if_splits)
    using "1.IH" apply (fastforce simp: line_at_def)+
    done
qed

lemma finish_a_advances:
  "finish_a lines st qnum stem j = Inr st' \<Longrightarrow> j \<le> pos st'"
  by (auto simp: finish_a_def split: sum.splits dest: collect_options_advances)

lemma section_a_advances:
  "section_a lines st line = Inr st' \<Longrightarrow> pos st < pos st'"
  by (auto simp: section_a_def Let_def split: option.splits if_splits sum.splits
      dest!: finish_a_advances)

lemma section_bc_advances:
  "section_bc lines st sec line = Inr st' \<Longrightarrow> pos st < pos st'"
  by (auto simp: section_bc_def Let_def split: option.splits if_splits sum.splits
      dest!: collect_block_advances)

lemma loop_body_advances:
  "loop_body lines st = Inr st' \<Longrightarrow> pos st < pos st'"
  by (auto simp: loop_body_def Let_def split: option.splits if_splits sum.splits
      dest!: section_a_advances section_bc_advances)

text \<open>
  Every iteration moves the cursor forward, which is why the main loop ends.
\<close>

function scan :: "string list \<Rightarrow> scan_state \<Rightarrow> error + question list" where
  "scan lines st =
     (if pos st < length lines then
        (case loop_body lines st of
           Inl e \<Rightarrow> Inl e
         | Inr st' \<Rightarrow> scan lines st')
      else Inr (result st))"
  by pat_completeness auto
termination
  by (relation "measure (\<lambda>(lines, st). length lines - pos st)")
     (auto dest!: loop_body_advances)

declare scan.simps [simp del]

definition extract_questions :: "string list \<Rightarrow> error + question list" where
  \<comment> \<open>\<^verbatim>\<open>extract_questions\<close>, from the lines that \<^verbatim>\<open>get_all_text\<close> read in the document\<close>
  "extract_questions raw_lines =
     scan (dedup_lines None raw_lines) \<lparr>cur_section = None, result = [], pos = 0\<rparr>"

section \<open>The order of the questions\<close>

definition section_order :: "string \<rightharpoonup> int" where
  "section_order = [''A'' \<mapsto> 1, ''B'' \<mapsto> 2, ''C'' \<mapsto> 3]"

definition digit_value :: "char \<Rightarrow> int" where
  "digit_value c = (case map_of (zip ''0123456789'' [0, 1, 2, 3, 4, 5, 6, 7, 8, 9]) c of
                      Some d \<Rightarrow> d | None \<Rightarrow> 0)"

definition int_of_digits :: "string \<Rightarrow> int" where
  \<comment> \<open>\<^verbatim>\<open>int(s)\<close> for a string of decimal digits\<close>
  "int_of_digits ds = foldl (\<lambda>n c. 10 * n + digit_value c) 0 ds"

definition sort_key_q :: "question \<Rightarrow> int \<times> int \<times> string" where
  \<comment> \<open>the function \<^verbatim>\<open>sort_key\<close> of \<^verbatim>\<open>main\<close>\<close>
  "sort_key_q x =
     (let qnum = (case match_leading_int (q_label x) of
                    Some ds \<Rightarrow> int_of_digits ds
                  | None \<Rightarrow> 9999)
      in (case section_order (q_section x) of Some r \<Rightarrow> r | None \<Rightarrow> 99,
          qnum, strip (q_label x)))"

definition sorted_questions :: "question list \<Rightarrow> question list" where
  \<comment> \<open>\<^verbatim>\<open>sorted(questions, key=sort_key)\<close>: Python's sort is stable, as the insertion sort
      \<^const>\<open>sort_key\<close> is; tuples compare lexicographically and strings by code point\<close>
  "sorted_questions questions = sort_key sort_key_q questions"

section \<open>The inner loops as folds over the lines they consume\<close>

definition add_option :: "(string \<rightharpoonup> string) \<Rightarrow> string \<Rightarrow> (string \<rightharpoonup> string)" where
  \<comment> \<open>the body of the options loop for one option line:
      \<^verbatim>\<open>options[lines[i][0].upper()] = lines[i][1:].strip()\<close>\<close>
  "add_option options l = options(map upper_char (take 1 l) \<mapsto> strip (drop 1 l))"

definition option_lines :: "string list \<Rightarrow> nat \<Rightarrow> string list" where
  \<comment> \<open>the lines that the options loop consumes from the cursor \<^verbatim>\<open>i\<close>\<close>
  "option_lines lines i = takeWhile match_option (drop i lines)"

lemma option_lines_step:
  "i < length lines \<Longrightarrow> match_option (lines ! i) \<Longrightarrow>
   option_lines lines i = lines ! i # option_lines lines (Suc i)"
  by (simp add: option_lines_def Cons_nth_drop_Suc[symmetric])

lemma option_lines_stop:
  "\<not> (i < length lines \<and> match_option (lines ! i)) \<Longrightarrow> option_lines lines i = []"
  by (cases "i < length lines")
     (simp_all add: option_lines_def Cons_nth_drop_Suc[symmetric])

lemma collect_options_eq:
  "collect_options lines i options =
     Inr (i + length (option_lines lines i), foldl add_option options (option_lines lines i))"
proof (induction lines i options rule: collect_options.induct)
  case (1 lines i options)
  show ?case
  proof (cases "i < length lines \<and> match_option (lines ! i)")
    case False
    then show ?thesis
      by (subst collect_options.simps) (auto simp add: line_at_def option_lines_stop)
  next
    case True
    then obtain c r where l: "lines ! i = c # r"
      by (cases "lines ! i") (auto simp: match_option_def)
    have a: "i < length lines" and b: "line_at lines i = Inr (lines ! i)"
      and c: "match_option (lines ! i)" and d: "first_char (lines ! i) = Inr c"
      using True l by (simp_all add: line_at_def first_char_def)
    have "collect_options lines i options = collect_options lines (i + 1)
          (options([upper_char c] \<mapsto> strip (drop 1 (lines ! i))))"
      by (subst collect_options.simps) (simp add: a b c d)
    also have "\<dots> = Inr (i + 1 + length (option_lines lines (i + 1)),
        foldl add_option (options([upper_char c] \<mapsto> strip (drop 1 (lines ! i))))
          (option_lines lines (i + 1)))"
      by (rule "1.IH"[OF a b c d])
    also have "options([upper_char c] \<mapsto> strip (drop 1 (lines ! i))) = add_option options (lines ! i)"
      by (simp add: add_option_def l)
    finally show ?thesis
      by (simp add: option_lines_step[OF a c])
  qed
qed

definition continues :: "string \<Rightarrow> bool" where
  \<comment> \<open>the test of the block loop on the line at the cursor\<close>
  "continues l = (\<not> match_next_open l \<and> \<not> startswith (lower l) ''section'')"

definition kept :: "string \<Rightarrow> bool" where
  \<comment> \<open>the first test in the body of the block loop\<close>
  "kept l = (\<not> is_excluded l \<and> l \<noteq> ''(OR)'')"

definition block_lines :: "string list \<Rightarrow> nat \<Rightarrow> string list" where
  \<comment> \<open>the lines that the block loop consumes from the cursor \<^verbatim>\<open>i\<close>\<close>
  "block_lines lines i = takeWhile continues (drop i lines)"

definition absorb :: "string \<times> string list \<Rightarrow> string \<Rightarrow> string \<times> string list" where
  \<comment> \<open>the body of the block loop on \<^verbatim>\<open>(ab, block)\<close> for one line\<close>
  "absorb s l = (case s of (ab, block) \<Rightarrow>
      if kept l then (if (l = ''A'' \<or> l = ''B'') \<and> block = [] then (l, block) else (ab, block @ [l]))
      else (ab, block))"

lemma block_lines_step:
  "i < length lines \<Longrightarrow> continues (lines ! i) \<Longrightarrow>
   block_lines lines i = lines ! i # block_lines lines (Suc i)"
  by (simp add: block_lines_def Cons_nth_drop_Suc[symmetric])

lemma block_lines_stop:
  "\<not> (i < length lines \<and> continues (lines ! i)) \<Longrightarrow> block_lines lines i = []"
  by (cases "i < length lines")
     (simp_all add: block_lines_def Cons_nth_drop_Suc[symmetric])

lemma collect_block_eq:
  "collect_block lines i ab block =
     Inr (i + length (block_lines lines i),
          foldl absorb (ab, block) (block_lines lines i))"
proof (induction lines i ab block rule: collect_block.induct)
  case (1 lines i ab block)
  show ?case
  proof (cases "i < length lines \<and> continues (lines ! i)")
    case False
    then show ?thesis
      by (subst collect_block.simps) (auto simp add: line_at_def block_lines_stop continues_def)
  next
    case True
    let ?l = "lines ! i"
    have a: "i < length lines" and b: "line_at lines i = Inr ?l"
      and c: "\<not> match_next_open ?l \<and> \<not> startswith (lower ?l) ''section''"
      using True by (simp_all add: line_at_def continues_def)
    have st: "block_lines lines i = ?l # block_lines lines (Suc i)"
      using True by (simp add: block_lines_step)
    show ?thesis
    proof (cases "\<not> is_excluded ?l \<and> ?l \<noteq> ''(OR)''")
      case k: True
      show ?thesis
      proof (cases "(?l = ''A'' \<or> ?l = ''B'') \<and> block = []")
        case lab: True
        have "collect_block lines i ab block = collect_block lines (i + 1) ?l block"
          by (subst collect_block.simps) (use a b c k lab in simp)
        also note "1.IH"(1)[OF a b c k lab]
        finally have "collect_block lines i ab block =
          Inr (i + 1 + length (block_lines lines (i + 1)),
               foldl absorb (?l, block) (block_lines lines (i + 1)))" .
        moreover have "absorb (ab, block) ?l = (?l, block)"
          using k lab by (simp add: absorb_def kept_def)
        ultimately show ?thesis
          by (simp add: st)
      next
        case lab: False
        have "collect_block lines i ab block = collect_block lines (i + 1) ab (block @ [?l])"
          by (subst collect_block.simps) (use a b c k lab in auto)
        also note "1.IH"(2)[OF a b c k lab]
        finally have "collect_block lines i ab block =
          Inr (i + 1 + length (block_lines lines (i + 1)),
               foldl absorb (ab, block @ [?l]) (block_lines lines (i + 1)))" .
        moreover have "absorb (ab, block) ?l = (ab, block @ [?l])"
          using k lab by (auto simp add: absorb_def kept_def)
        ultimately show ?thesis
          by (simp add: st)
      qed
    next
      case k: False
      have "collect_block lines i ab block = collect_block lines (i + 1) ab block"
        by (subst collect_block.simps) (use a b c k in auto)
      also note "1.IH"(3)[OF a b c k]
      finally have "collect_block lines i ab block =
          Inr (i + 1 + length (block_lines lines (i + 1)),
               foldl absorb (ab, block) (block_lines lines (i + 1)))" .
      moreover have "absorb (ab, block) ?l = (ab, block)"
        using k by (auto simp add: absorb_def kept_def)
      ultimately show ?thesis
        by (simp add: st)
    qed
  qed
qed


section \<open>The loop never fails\<close>

lemma finish_a_eq:
  "finish_a lines st qnum stem_text j =
     Inr (st\<lparr>result := result st @
                [\<lparr>q_section = ''A'', q_label = qnum,
                  q_text = build_text stem_text
                     (foldl add_option Map.empty (option_lines lines j))\<rparr>],
             pos := j + length (option_lines lines j)\<rparr>)"
  by (simp add: finish_a_def collect_options_eq)

lemma section_a_total: "pos st < length lines \<Longrightarrow> \<exists>st'. section_a lines st line = Inr st'"
  by (simp add: section_a_def Let_def finish_a_eq line_at_def split: option.split)

lemma section_bc_total: "\<exists>st'. section_bc lines st sec line = Inr st'"
  by (simp add: section_bc_def Let_def collect_block_eq split: option.split prod.split)

lemma loop_body_total: "pos st < length lines \<Longrightarrow> \<exists>st'. loop_body lines st = Inr st'"
  using section_a_total[of st lines] section_bc_total[of lines st]
  by (simp add: loop_body_def Let_def line_at_def split: option.split)

lemma scan_total: "\<exists>qs. scan lines st = Inr qs"
proof (induction lines st rule: scan.induct)
  case (1 lines st)
  show ?case
  proof (cases "pos st < length lines")
    case False
    then show ?thesis by (subst scan.simps) simp
  next
    case True
    then obtain st' where b: "loop_body lines st = Inr st'"
      using loop_body_total by blast
    from "1.IH"[OF True b] obtain qs where "scan lines st' = Inr qs" ..
    then show ?thesis
      by (subst scan.simps) (simp add: True b)
  qed
qed

lemma scan_invariant:
  assumes step: "\<And>s s'. I s \<Longrightarrow> pos s < length lines \<Longrightarrow> loop_body lines s = Inr s' \<Longrightarrow> I s'"
    and init: "I st"
    and run: "scan lines st = Inr qs"
  shows "\<exists>s. I s \<and> result s = qs"
  using step init run
proof (induction lines st rule: scan.induct)
  case (1 lines st)
  show ?case
  proof (cases "pos st < length lines")
    case False
    from "1.prems"(3) have "Inr (result st) = (Inr qs :: error + question list)"
      by (subst (asm) scan.simps) (simp add: False)
    with "1.prems"(2) show ?thesis
      by blast
  next
    case True
    then obtain st' where b: "loop_body lines st = Inr st'"
      using loop_body_total by blast
    from "1.prems"(3) have r: "scan lines st' = Inr qs"
      by (subst (asm) scan.simps) (simp add: True b)
    have i: "I st'"
      using "1.prems"(1)[OF "1.prems"(2) True b] .
    show ?thesis
      by (rule "1.IH"[OF True b "1.prems"(1) i r])
  qed
qed


text \<open>
  C8. \<^verbatim>\<open>extract_questions\<close> is total: on every list of lines it returns a list of questions,
  without an error, and every iteration of the main loop that starts inside the list returns
  a state whose cursor is strictly further.
\<close>

theorem extract_questions_total:
  "(\<exists>qs. extract_questions raw_lines = Inr qs) \<and>
   (pos st < length lines \<longrightarrow> (\<exists>st'. loop_body lines st = Inr st' \<and> pos st < pos st'))"
proof
  show "\<exists>qs. extract_questions raw_lines = Inr qs"
    unfolding extract_questions_def by (rule scan_total)
next
  show "pos st < length lines \<longrightarrow> (\<exists>st'. loop_body lines st = Inr st' \<and> pos st < pos st')"
  proof
    assume "pos st < length lines"
    then obtain st' where b: "loop_body lines st = Inr st'"
      using loop_body_total by blast
    with loop_body_advances[OF b] show "\<exists>st'. loop_body lines st = Inr st' \<and> pos st < pos st'"
      by blast
  qed
qed

theorem extract_questions_total_witness:
  "pos \<lparr>cur_section = Some ''A'', result = [], pos = 1\<rparr> < length [''Section A'', ''x'', ''1 y'']
   \<and> (\<exists>qs. extract_questions [''Section A'', ''x'', ''1 y''] = Inr qs)
   \<and> (\<exists>st'. loop_body [''Section A'', ''x'', ''1 y'']
               \<lparr>cur_section = Some ''A'', result = [], pos = 1\<rparr> = Inr st'
             \<and> pos \<lparr>cur_section = Some ''A'', result = [], pos = 1\<rparr> < pos st')"
  using extract_questions_total[of "[''Section A'', ''x'', ''1 y'']"
      "\<lparr>cur_section = Some ''A'', result = [], pos = 1\<rparr>" "[''Section A'', ''x'', ''1 y'']"]
  by simp

section \<open>The sorted sequence\<close>

definition section_rank :: "string \<Rightarrow> int" where
  \<comment> \<open>the rank of a section as the specification words it\<close>
  "section_rank s = (if s = ''A'' then 1 else if s = ''B'' then 2 else if s = ''C'' then 3 else 99)"

definition digit_number :: "char \<Rightarrow> int" where
  \<comment> \<open>the number that a decimal digit stands for, from its code point\<close>
  "digit_number c = int (of_char c) - 48"

fun units_first :: "string \<Rightarrow> int" where
  \<comment> \<open>the number written by decimal digits given from the units upwards\<close>
  "units_first [] = 0"
| "units_first (c # cs) = digit_number c + 10 * units_first cs"

definition decimal_value :: "string \<Rightarrow> int" where
  \<comment> \<open>the number that a string of decimal digits writes\<close>
  "decimal_value ds = units_first (rev ds)"

definition leading_digits :: "string \<Rightarrow> string" where
  \<comment> \<open>the digits at the start of a label, after any whitespace\<close>
  "leading_digits l = takeWhile is_digit (dropWhile is_space l)"

definition label_number :: "string \<Rightarrow> int" where
  \<comment> \<open>the leading integer of a label, 9999 when there is none\<close>
  "label_number l = (if leading_digits l = [] then 9999 else decimal_value (leading_digits l))"

definition key_before :: "question \<Rightarrow> question \<Rightarrow> bool" where
  \<comment> \<open>the key of \<^verbatim>\<open>p\<close> is at most the key of \<^verbatim>\<open>q\<close>: by rank, then by number, then by the
      trimmed label (strings compare character by character, by code point)\<close>
  "key_before p q =
     (section_rank (q_section p) < section_rank (q_section q)
      \<or> (section_rank (q_section p) = section_rank (q_section q)
          \<and> (label_number (q_label p) < label_number (q_label q)
              \<or> (label_number (q_label p) = label_number (q_label q)
                  \<and> strip (q_label p) \<le> strip (q_label q)))))"

lemma digit_value_eq: "is_digit c \<Longrightarrow> digit_value c = digit_number c"
proof -
  assume "is_digit c"
  then consider "c = CHR ''0''" | "c = CHR ''1''" | "c = CHR ''2''" | "c = CHR ''3''"
    | "c = CHR ''4''" | "c = CHR ''5''" | "c = CHR ''6''" | "c = CHR ''7''"
    | "c = CHR ''8''" | "c = CHR ''9''"
    by (auto simp: is_digit_def)
  then show ?thesis
    by cases (simp_all add: digit_value_def digit_number_def)
qed

lemma int_of_digits_snoc: "int_of_digits (ds @ [c]) = 10 * int_of_digits ds + digit_value c"
  by (simp add: int_of_digits_def)

lemma int_of_digits_decimal: "list_all is_digit ds \<Longrightarrow> int_of_digits ds = decimal_value ds"
proof (induction ds rule: rev_induct)
  case Nil
  show ?case by (simp add: int_of_digits_def decimal_value_def)
next
  case (snoc c ds)
  then have "int_of_digits ds = decimal_value ds" and "is_digit c"
    by simp_all
  then show ?case
    by (simp add: int_of_digits_snoc digit_value_eq decimal_value_def)
qed

lemma leading_digits_are_digits: "list_all is_digit (leading_digits l)"
  by (auto simp: leading_digits_def list_all_iff dest: set_takeWhileD)

lemma sort_key_q_eq:
  "sort_key_q q = (section_rank (q_section q), label_number (q_label q), strip (q_label q))"
proof -
  have "(case match_leading_int (q_label q) of Some ds \<Rightarrow> int_of_digits ds | None \<Rightarrow> 9999)
        = label_number (q_label q)"
    using int_of_digits_decimal[OF leading_digits_are_digits, of "q_label q"]
    by (simp add: match_leading_int_def label_number_def leading_digits_def Let_def)
  moreover have "(case section_order (q_section q) of Some r \<Rightarrow> r | None \<Rightarrow> 99)
        = section_rank (q_section q)"
    by (simp add: section_order_def section_rank_def)
  ultimately show ?thesis
    by (simp add: sort_key_q_def Let_def)
qed

lemma key_before_iff: "key_before p q \<longleftrightarrow> sort_key_q p \<le> sort_key_q q"
  by (auto simp: key_before_def sort_key_q_eq)

lemma sorted_questions_ordered: "sorted_wrt key_before (sorted_questions qs)"
proof -
  have "sorted (map sort_key_q (sort_key sort_key_q qs))"
    by (rule sorted_sort_key)
  then have "sorted_wrt (\<lambda>p q. sort_key_q p \<le> sort_key_q q) (sort_key sort_key_q qs)"
    by (simp add: sorted_wrt_map)
  then show ?thesis
    by (simp add: sorted_questions_def key_before_iff[abs_def])
qed

lemma leading_digits_shape:
  assumes "list_all is_space ws" and "list_all is_digit ds"
    and "rest = [] \<or> \<not> is_digit (hd rest)"
    and "ds \<noteq> [] \<or> rest = [] \<or> \<not> is_space (hd rest)"
  shows "leading_digits (ws @ ds @ rest) = ds"
proof -
  have "ds @ rest = [] \<or> \<not> is_space (hd (ds @ rest))"
    using assms(2,4) by (cases ds) (auto simp: is_digit_def is_space_def)
  then have "dropWhile is_space (ds @ rest) = ds @ rest"
    by (cases "ds @ rest") auto
  with assms(1) have "dropWhile is_space (ws @ ds @ rest) = ds @ rest"
    by (simp add: dropWhile_append list_all_iff)
  moreover have "takeWhile is_digit (ds @ rest) = ds"
    using assms(2,3) by (cases rest) (simp_all add: takeWhile_append list_all_iff)
  ultimately show ?thesis
    by (simp add: leading_digits_def)
qed

lemma label_number_digits:
  assumes "list_all is_space ws" and "ds \<noteq> []" and "list_all is_digit ds"
    and "rest = [] \<or> \<not> is_digit (hd rest)"
  shows "label_number (ws @ ds @ rest) = decimal_value ds"
  using leading_digits_shape[OF assms(1,3,4)] assms(2) by (simp add: label_number_def)

lemma label_number_missing:
  assumes "list_all is_space ws" and "rest = [] \<or> \<not> is_digit (hd rest) \<and> \<not> is_space (hd rest)"
  shows "label_number (ws @ rest) = 9999"
proof -
  have "leading_digits (ws @ [] @ rest) = []"
    using assms by (intro leading_digits_shape) auto
  then show ?thesis by (simp add: label_number_def)
qed

text \<open>
  C6. The sorted sequence is ascending by the key (section rank, leading integer of the label,
  trimmed label), it is a rearrangement of the extracted questions, and the questions that
  have one and the same key \<^verbatim>\<open>k\<close> stay in their extraction order. The key that the code
  computes is the triple of the rank (A is 1, B is 2, C is 3, anything else 99), the number of
  the label and the trimmed label. The number of a label made of whitespace, then digits, then
  something that does not start with a digit, is the number that the digits write; the number
  of a label that has no digit after its leading whitespace is 9999.
\<close>

theorem sorted_questions_stable_ascending:
  "sorted_wrt key_before (sorted_questions qs)
   \<and> mset (sorted_questions qs) = mset qs
   \<and> filter (\<lambda>q. sort_key_q q = k) (sorted_questions qs) = filter (\<lambda>q. sort_key_q q = k) qs
   \<and> sort_key_q q = (section_rank (q_section q), label_number (q_label q), strip (q_label q))
   \<and> (list_all is_space ws \<and> ds \<noteq> [] \<and> list_all is_digit ds
        \<and> (rest = [] \<or> \<not> is_digit (hd rest))
       \<longrightarrow> sort_key_q \<lparr>q_section = s, q_label = ws @ ds @ rest, q_text = t\<rparr>
            = (section_rank s, decimal_value ds, strip (ws @ ds @ rest)))
   \<and> (list_all is_space ws \<and> (rest = [] \<or> \<not> is_digit (hd rest) \<and> \<not> is_space (hd rest))
       \<longrightarrow> sort_key_q \<lparr>q_section = s, q_label = ws @ rest, q_text = t\<rparr>
            = (section_rank s, 9999, strip (ws @ rest)))"
proof (intro conjI impI)
  show "sorted_wrt key_before (sorted_questions qs)"
    by (rule sorted_questions_ordered)
  show "mset (sorted_questions qs) = mset qs"
    by (simp add: sorted_questions_def)
  show "filter (\<lambda>q. sort_key_q q = k) (sorted_questions qs) = filter (\<lambda>q. sort_key_q q = k) qs"
    by (simp add: sorted_questions_def sort_key_stable)
  show "sort_key_q q = (section_rank (q_section q), label_number (q_label q), strip (q_label q))"
    by (rule sort_key_q_eq)
next
  assume "list_all is_space ws \<and> ds \<noteq> [] \<and> list_all is_digit ds
        \<and> (rest = [] \<or> \<not> is_digit (hd rest))"
  then have "label_number (ws @ ds @ rest) = decimal_value ds"
    using label_number_digits by blast
  then show "sort_key_q \<lparr>q_section = s, q_label = ws @ ds @ rest, q_text = t\<rparr>
            = (section_rank s, decimal_value ds, strip (ws @ ds @ rest))"
    by (simp add: sort_key_q_eq)
next
  assume "list_all is_space ws \<and> (rest = [] \<or> \<not> is_digit (hd rest) \<and> \<not> is_space (hd rest))"
  then have "label_number (ws @ rest) = 9999"
    using label_number_missing by blast
  then show "sort_key_q \<lparr>q_section = s, q_label = ws @ rest, q_text = t\<rparr>
            = (section_rank s, 9999, strip (ws @ rest))"
    by (simp add: sort_key_q_eq)
qed

theorem sorted_questions_stable_ascending_witness:
  "sorted_questions
     [\<lparr>q_section = ''B'', q_label = ''7 B'', q_text = ''b''\<rparr>,
      \<lparr>q_section = ''C'', q_label = ''3'', q_text = ''c''\<rparr>,
      \<lparr>q_section = ''B'', q_label = ''7 A'', q_text = ''a''\<rparr>,
      \<lparr>q_section = ''A'', q_label = ''10'', q_text = ''ten''\<rparr>,
      \<lparr>q_section = ''A'', q_label = ''9'', q_text = ''x''\<rparr>,
      \<lparr>q_section = ''A'', q_label = ''9'', q_text = ''y''\<rparr>,
      \<lparr>q_section = ''D'', q_label = ''Q1'', q_text = ''z''\<rparr>]
   = [\<lparr>q_section = ''A'', q_label = ''9'', q_text = ''x''\<rparr>,
      \<lparr>q_section = ''A'', q_label = ''9'', q_text = ''y''\<rparr>,
      \<lparr>q_section = ''A'', q_label = ''10'', q_text = ''ten''\<rparr>,
      \<lparr>q_section = ''B'', q_label = ''7 A'', q_text = ''a''\<rparr>,
      \<lparr>q_section = ''B'', q_label = ''7 B'', q_text = ''b''\<rparr>,
      \<lparr>q_section = ''C'', q_label = ''3'', q_text = ''c''\<rparr>,
      \<lparr>q_section = ''D'', q_label = ''Q1'', q_text = ''z''\<rparr>]
   \<and> sorted_wrt key_before
       [\<lparr>q_section = ''A'', q_label = ''9'', q_text = ''x''\<rparr>,
      \<lparr>q_section = ''A'', q_label = ''9'', q_text = ''y''\<rparr>,
      \<lparr>q_section = ''A'', q_label = ''10'', q_text = ''ten''\<rparr>,
      \<lparr>q_section = ''B'', q_label = ''7 A'', q_text = ''a''\<rparr>,
      \<lparr>q_section = ''B'', q_label = ''7 B'', q_text = ''b''\<rparr>,
      \<lparr>q_section = ''C'', q_label = ''3'', q_text = ''c''\<rparr>,
      \<lparr>q_section = ''D'', q_label = ''Q1'', q_text = ''z''\<rparr>]
   \<and> filter (\<lambda>q. sort_key_q q = (1, 9, ''9''))
       [\<lparr>q_section = ''A'', q_label = ''9'', q_text = ''x''\<rparr>,
      \<lparr>q_section = ''A'', q_label = ''9'', q_text = ''y''\<rparr>,
      \<lparr>q_section = ''A'', q_label = ''10'', q_text = ''ten''\<rparr>,
      \<lparr>q_section = ''B'', q_label = ''7 A'', q_text = ''a''\<rparr>,
      \<lparr>q_section = ''B'', q_label = ''7 B'', q_text = ''b''\<rparr>,
      \<lparr>q_section = ''C'', q_label = ''3'', q_text = ''c''\<rparr>,
      \<lparr>q_section = ''D'', q_label = ''Q1'', q_text = ''z''\<rparr>]
     = [\<lparr>q_section = ''A'', q_label = ''9'', q_text = ''x''\<rparr>, \<lparr>q_section = ''A'', q_label = ''9'', q_text = ''y''\<rparr>]
   \<and> list_all is_space '' '' \<and> list_all is_digit ''12'' \<and> \<not> is_digit (hd '' A'')
   \<and> sort_key_q \<lparr>q_section = ''B'', q_label = '' '' @ ''12'' @ '' A'', q_text = []\<rparr> = (2, 12, ''12 A'')
   \<and> \<not> is_digit (hd ''Q1'') \<and> \<not> is_space (hd ''Q1'')
   \<and> sort_key_q \<lparr>q_section = ''D'', q_label = [] @ ''Q1'', q_text = []\<rparr> = (99, 9999, ''Q1'')"
proof -
  let ?qs = "[\<lparr>q_section = ''B'', q_label = ''7 B'', q_text = ''b''\<rparr>,
      \<lparr>q_section = ''C'', q_label = ''3'', q_text = ''c''\<rparr>,
      \<lparr>q_section = ''B'', q_label = ''7 A'', q_text = ''a''\<rparr>,
      \<lparr>q_section = ''A'', q_label = ''10'', q_text = ''ten''\<rparr>,
      \<lparr>q_section = ''A'', q_label = ''9'', q_text = ''x''\<rparr>,
      \<lparr>q_section = ''A'', q_label = ''9'', q_text = ''y''\<rparr>,
      \<lparr>q_section = ''D'', q_label = ''Q1'', q_text = ''z''\<rparr>]"
  let ?sorted = "[\<lparr>q_section = ''A'', q_label = ''9'', q_text = ''x''\<rparr>,
      \<lparr>q_section = ''A'', q_label = ''9'', q_text = ''y''\<rparr>,
      \<lparr>q_section = ''A'', q_label = ''10'', q_text = ''ten''\<rparr>,
      \<lparr>q_section = ''B'', q_label = ''7 A'', q_text = ''a''\<rparr>,
      \<lparr>q_section = ''B'', q_label = ''7 B'', q_text = ''b''\<rparr>,
      \<lparr>q_section = ''C'', q_label = ''3'', q_text = ''c''\<rparr>,
      \<lparr>q_section = ''D'', q_label = ''Q1'', q_text = ''z''\<rparr>]"
  have e: "sorted_questions ?qs = ?sorted"
    by code_simp
  have f: "filter (\<lambda>q. sort_key_q q = (1, 9, ''9'')) ?qs = [\<lparr>q_section = ''A'', q_label = ''9'', q_text = ''x''\<rparr>, \<lparr>q_section = ''A'', q_label = ''9'', q_text = ''y''\<rparr>]"
    by code_simp
  have h1: "list_all is_space '' ''" and h2: "list_all is_digit ''12''"
    and h3: "\<not> is_digit (hd '' A'')" and h4: "\<not> is_digit (hd ''Q1'')"
    and h5: "\<not> is_space (hd ''Q1'')" and h6: "list_all is_space []" and h7: "''12'' \<noteq> []"
    by (simp_all add: is_space_def is_digit_def)
  have v: "section_rank ''B'' = 2" "decimal_value ''12'' = 12" "strip ('' '' @ ''12'' @ '' A'') = ''12 A''"
    "section_rank ''D'' = 99" "strip ([] @ ''Q1'') = ''Q1''"
    by code_simp+
  have c1: "sorted_wrt key_before ?sorted"
    using sorted_questions_stable_ascending[of ?qs] unfolding e by blast
  have c2: "filter (\<lambda>q. sort_key_q q = (1, 9, ''9'')) ?sorted = [\<lparr>q_section = ''A'', q_label = ''9'', q_text = ''x''\<rparr>, \<lparr>q_section = ''A'', q_label = ''9'', q_text = ''y''\<rparr>]"
    using sorted_questions_stable_ascending[of ?qs "(1, 9, ''9'')"] unfolding e f by blast
  have c3: "sort_key_q \<lparr>q_section = ''B'', q_label = '' '' @ ''12'' @ '' A'', q_text = []\<rparr> = (2, 12, ''12 A'')"
    using sorted_questions_stable_ascending[of "[]" "(0, 0, [])" "\<lparr>q_section = [], q_label = [], q_text = []\<rparr>"
        "'' ''" "''12''" "'' A''" "''B''" "[]"] h1 h2 h3 h7
    unfolding v by blast
  have c4: "sort_key_q \<lparr>q_section = ''D'', q_label = [] @ ''Q1'', q_text = []\<rparr> = (99, 9999, ''Q1'')"
    using sorted_questions_stable_ascending[of "[]" "(0, 0, [])" "\<lparr>q_section = [], q_label = [], q_text = []\<rparr>"
        "[]" "''0''" "''Q1''" "''D''" "[]"] h4 h5 h6
    unfolding v by blast
  from e c1 c2 h1 h2 h3 c3 h4 h5 c4 show ?thesis
    by (intro conjI)
qed

section \<open>The normalized lines\<close>

lemma sub_spaces_empty_iff: "sub_spaces s = [] \<longleftrightarrow> s = []"
  by (cases s) simp_all

lemma clean_line_nonempty: "r \<noteq> [] \<Longrightarrow> strip r = r \<Longrightarrow> clean_line r \<noteq> []"
  by (simp add: clean_line_def sub_spaces_empty_iff)

lemma dedup_lines_no_empty: "[] \<notin> set (dedup_lines prev raws)"
  by (induction raws arbitrary: prev) (auto simp: Let_def)

lemma dedup_lines_head:
  "\<forall>r \<in> set raws. clean_line r \<noteq> [] \<Longrightarrow>
   dedup_lines (Some l) raws = [] \<or> hd (dedup_lines (Some l) raws) \<noteq> l"
  by (induction raws) (auto simp: Let_def)

lemma dedup_lines_distinct_adj:
  "\<forall>r \<in> set raws. clean_line r \<noteq> [] \<Longrightarrow> distinct_adj (dedup_lines prev raws)"
proof (induction raws arbitrary: prev)
  case Nil
  then show ?case by simp
next
  case (Cons r raws)
  then have rest: "distinct_adj (dedup_lines (Some (clean_line r)) raws)"
    and hd: "dedup_lines (Some (clean_line r)) raws = []
             \<or> hd (dedup_lines (Some (clean_line r)) raws) \<noteq> clean_line r"
    using dedup_lines_head[of raws "clean_line r"] by simp_all
  then show ?case
    by (auto simp: Let_def distinct_adj_Cons)
qed

text \<open>
  C7. When every raw line is already trimmed and not empty, as the document reader supplies
  them, the normalized lines contain no empty string and no two adjacent equal entries.
\<close>

theorem normalized_lines_invariant:
  assumes "\<forall>r \<in> set raw_lines. r \<noteq> [] \<and> strip r = r"
  shows "[] \<notin> set (dedup_lines None raw_lines) \<and> distinct_adj (dedup_lines None raw_lines)"
proof -
  from assms have "\<forall>r \<in> set raw_lines. clean_line r \<noteq> []"
    by (simp add: clean_line_nonempty)
  then show ?thesis
    by (simp add: dedup_lines_no_empty dedup_lines_distinct_adj)
qed

theorem normalized_lines_invariant_witness:
  "list_all (\<lambda>r. r \<noteq> [] \<and> strip r = r) [''a  b'', ''a b'', ''c'']
   \<and> dedup_lines None [''a  b'', ''a b'', ''c''] = [''a b'', ''c'']
   \<and> [] \<notin> set (dedup_lines None [''a  b'', ''a b'', ''c''])
   \<and> distinct_adj (dedup_lines None [''a  b'', ''a b'', ''c''])"
proof -
  have l: "list_all (\<lambda>r. r \<noteq> [] \<and> strip r = r) [''a  b'', ''a b'', ''c'']"
    by (simp add: strip_def is_space_def)
  then have h: "\<forall>r \<in> set [''a  b'', ''a b'', ''c'']. r \<noteq> [] \<and> strip r = r"
    by (simp only: list_all_iff)
  have e: "dedup_lines None [''a  b'', ''a b'', ''c''] = [''a b'', ''c'']"
    by (simp add: clean_line_def strip_def is_space_def)
  from l e normalized_lines_invariant[OF h] show ?thesis
    by (intro conjI) simp_all
qed

section \<open>The labels of the questions\<close>

lemma take_num_nonempty: "take_num s = Some (qnum, r) \<Longrightarrow> qnum \<noteq> [] \<and> is_digit (hd qnum)"
  by (auto simp: take_num_def split: list.splits if_splits)

lemma digit_not_space: "is_digit c \<Longrightarrow> \<not> is_space c"
  by (auto simp: is_digit_def is_space_def)

lemma strip_nonempty: "c \<in> set s \<Longrightarrow> \<not> is_space c \<Longrightarrow> strip s \<noteq> []"
proof -
  assume c: "c \<in> set s" and n: "\<not> is_space c"
  have "c \<notin> set (takeWhile is_space s)"
    using n by (auto dest: set_takeWhileD)
  moreover have "set s = set (takeWhile is_space s) \<union> set (dropWhile is_space s)"
    by (metis set_append takeWhile_dropWhile_id)
  ultimately have "c \<in> set (dropWhile is_space s)"
    using c by blast
  then show ?thesis
    using n by (auto simp: strip_def dropWhile_eq_Nil_conv)
qed

lemma match_num_text_label: "match_num_text line = Some (qnum, stem_text) \<Longrightarrow> qnum \<noteq> []"
  by (auto simp: match_num_text_def split: option.splits list.splits if_splits
      dest: take_num_nonempty)

lemma fullmatch_num_label: "fullmatch_num line \<Longrightarrow> line \<noteq> []"
  by (auto simp: fullmatch_num_def take_num_def)

lemma match_open_bc_parts:
  "match_open_bc line = Some (qnum, ab_group, rest) \<Longrightarrow>
   \<exists>r r2. take_num line = Some (qnum, r)
        \<and> take_variant (dropWhile is_space r) = (ab_group, r2)
        \<and> rest_to_end (dropWhile is_space r2) = Some rest"
  by (auto simp: match_open_bc_def split: option.splits prod.splits)

lemma match_open_bc_label:
  "match_open_bc line = Some (qnum, ab_group, rest) \<Longrightarrow> strip (qnum @ '' '' @ ab) \<noteq> []"
proof -
  assume "match_open_bc line = Some (qnum, ab_group, rest)"
  then obtain r where "take_num line = Some (qnum, r)"
    using match_open_bc_parts by blast
  then have "qnum \<noteq> []" and "is_digit (hd qnum)"
    using take_num_nonempty by blast+
  then have "hd qnum \<in> set (qnum @ '' '' @ ab)" and "\<not> is_space (hd qnum)"
    by (simp_all add: digit_not_space)
  then show ?thesis by (rule strip_nonempty)
qed

definition labelled :: "scan_state \<Rightarrow> bool" where
  \<comment> \<open>the invariant of the main loop: no question found so far has an empty label\<close>
  "labelled st = list_all (\<lambda>q. q_label q \<noteq> []) (result st)"

lemma section_a_labelled:
  "labelled st \<Longrightarrow> section_a lines st line = Inr st' \<Longrightarrow> labelled st'"
  by (auto simp: section_a_def Let_def finish_a_eq labelled_def line_at_def
      split: option.splits if_splits dest: match_num_text_label fullmatch_num_label)

lemma section_bc_labelled:
  "labelled st \<Longrightarrow> section_bc lines st sec line = Inr st' \<Longrightarrow> labelled st'"
  by (auto simp: section_bc_def Let_def collect_block_eq labelled_def
      split: option.splits if_splits prod.splits dest: match_open_bc_label)

lemma loop_body_labelled:
  "labelled st \<Longrightarrow> loop_body lines st = Inr st' \<Longrightarrow> labelled st'"
  by (auto simp: loop_body_def Let_def labelled_def[of "_\<lparr>pos := _\<rparr>"]
        labelled_def[of "_\<lparr>cur_section := _, pos := _\<rparr>"] labelled_def[of st, symmetric]
      split: sum.splits if_splits option.splits
      dest: section_a_labelled section_bc_labelled)

text \<open>
  C1, as the code has it: every question that \<^verbatim>\<open>extract_questions\<close> returns has a label
  that is not empty. (Its text may be empty.)
\<close>

theorem emitted_label_nonempty:
  assumes "extract_questions raw_lines = Inr qs" and "q \<in> set qs"
  shows "q_label q \<noteq> []"
proof -
  have "labelled \<lparr>cur_section = None, result = [], pos = 0\<rparr>"
    by (simp add: labelled_def)
  with assms(1) obtain s where "labelled s" and "result s = qs"
    unfolding extract_questions_def
    using scan_invariant[where I = labelled] loop_body_labelled by blast
  with assms(2) show ?thesis
    by (auto simp: labelled_def list_all_iff)
qed

text \<open>
  A number alone under a header of section B is a question whose text is empty.
\<close>

theorem emitted_text_empty_counterexample:
  "extract_questions [''Section B'', ''7''] =
     Inr [\<lparr>q_section = ''B'', q_label = ''7'', q_text = []\<rparr>]"
  by code_simp

theorem emitted_label_nonempty_witness:
  "extract_questions [''Section B'', ''7'', ''Section A'', ''1''] =
     Inr [\<lparr>q_section = ''B'', q_label = ''7'', q_text = []\<rparr>,
          \<lparr>q_section = ''A'', q_label = ''1'', q_text = []\<rparr>]
   \<and> \<lparr>q_section = ''A'', q_label = ''1'', q_text = []\<rparr>
       \<in> set [\<lparr>q_section = ''B'', q_label = ''7'', q_text = []\<rparr>,
               \<lparr>q_section = ''A'', q_label = ''1'', q_text = []\<rparr>]
   \<and> q_label \<lparr>q_section = ''A'', q_label = ''1'', q_text = []\<rparr> \<noteq> []"
proof -
  have e: "extract_questions [''Section B'', ''7'', ''Section A'', ''1''] =
     Inr [\<lparr>q_section = ''B'', q_label = ''7'', q_text = []\<rparr>,
          \<lparr>q_section = ''A'', q_label = ''1'', q_text = []\<rparr>]"
    by code_simp
  have m: "\<lparr>q_section = ''A'', q_label = ''1'', q_text = []\<rparr>
       \<in> set [\<lparr>q_section = ''B'', q_label = ''7'', q_text = []\<rparr>,
               \<lparr>q_section = ''A'', q_label = ''1'', q_text = []\<rparr>]"
    by simp
  have "q_label \<lparr>q_section = ''A'', q_label = ''1'', q_text = []\<rparr> \<noteq> []"
    by (rule emitted_label_nonempty[OF e m])
  with e m show ?thesis
    by (intro conjI)
qed

section \<open>Lines without a section header\<close>

definition is_header :: "string \<Rightarrow> bool" where
  \<comment> \<open>the three tests for a section header at the top of the main loop\<close>
  "is_header line =
     (startswith (lower line) ''section a'' \<or> startswith (lower line) ''section b''
      \<or> startswith (lower line) ''section c'')"

definition no_section :: "scan_state \<Rightarrow> bool" where
  \<comment> \<open>the state before the first header: no current section and no question\<close>
  "no_section st = (cur_section st = None \<and> result st = [])"

lemma dedup_lines_subset: "set (dedup_lines prev raws) \<subseteq> clean_line ` set raws"
  by (induction raws arbitrary: prev) (auto simp: Let_def)

lemma loop_body_no_section:
  assumes "no_section st" and "pos st < length lines" and "\<not> is_header (lines ! pos st)"
    and "loop_body lines st = Inr st'"
  shows "no_section st'"
  using assms
  by (auto simp: loop_body_def Let_def no_section_def is_header_def line_at_def)

lemma scan_no_header:
  assumes "list_all (\<lambda>l. \<not> is_header l) lines"
  shows "scan lines \<lparr>cur_section = None, result = [], pos = 0\<rparr> = Inr []"
proof -
  obtain qs where run: "scan lines \<lparr>cur_section = None, result = [], pos = 0\<rparr> = Inr qs"
    using scan_total by blast
  have "\<exists>s. no_section s \<and> result s = qs"
  proof (rule scan_invariant[where I = no_section and lines = lines])
    fix s s'
    assume "no_section s" and "pos s < length lines" and "loop_body lines s = Inr s'"
    then show "no_section s'"
      using assms loop_body_no_section by (simp add: list_all_length)
  next
    show "no_section \<lparr>cur_section = None, result = [], pos = 0\<rparr>"
      by (simp add: no_section_def)
  next
    show "scan lines \<lparr>cur_section = None, result = [], pos = 0\<rparr> = Inr qs"
      by (rule run)
  qed
  then have "qs = []" by (auto simp: no_section_def)
  with run show ?thesis by simp
qed

text \<open>
  C9, as the code has it: the headers are looked for in the normalized lines. When no line,
  once trimmed and with its runs of whitespace collapsed, has a lower-case form that starts
  with \<^verbatim>\<open>section a\<close>, \<^verbatim>\<open>section b\<close> or \<^verbatim>\<open>section c\<close>, the result is the empty list.
\<close>

theorem no_header_no_questions:
  assumes "\<forall>r \<in> set raw_lines. \<not> is_header (clean_line r)"
  shows "extract_questions raw_lines = Inr []"
proof -
  from assms have "list_all (\<lambda>l. \<not> is_header l) (dedup_lines None raw_lines)"
    using dedup_lines_subset[of None raw_lines] by (auto simp: list_all_iff)
  then show ?thesis
    unfolding extract_questions_def by (rule scan_no_header)
qed

theorem no_header_no_questions_witness:
  "list_all (\<lambda>r. \<not> is_header (clean_line r)) [''Part A'', ''1 What is 2+2?'', ''A 3'']
   \<and> extract_questions [''Part A'', ''1 What is 2+2?'', ''A 3''] = Inr []"
proof -
  have l: "list_all (\<lambda>r. \<not> is_header (clean_line r)) [''Part A'', ''1 What is 2+2?'', ''A 3'']"
    by (simp add: is_header_def clean_line_def strip_def is_space_def lower_def lower_char_def
        upper_ascii_def lower_ascii_def upper_latin1_def lower_latin1_def)
  then have h: "\<forall>r \<in> set [''Part A'', ''1 What is 2+2?'', ''A 3'']. \<not> is_header (clean_line r)"
    by (simp only: list_all_iff)
  from l no_header_no_questions[OF h] show ?thesis
    by (intro conjI)
qed

text \<open>
  A raw line with two spaces in \<^verbatim>\<open>Section  A\<close> does not start with \<^verbatim>\<open>section a\<close> in lower
  case, yet once cleaned it is a header, and the question after it is found.
\<close>

theorem raw_header_counterexample:
  "\<not> startswith (lower ''Section  A'') ''section a''
   \<and> \<not> startswith (lower ''Section  A'') ''section b''
   \<and> \<not> startswith (lower ''Section  A'') ''section c''
   \<and> \<not> startswith (lower ''1 What is 2+2?'') ''section a''
   \<and> \<not> startswith (lower ''1 What is 2+2?'') ''section b''
   \<and> \<not> startswith (lower ''1 What is 2+2?'') ''section c''
   \<and> extract_questions [''Section  A'', ''1 What is 2+2?''] =
       Inr [\<lparr>q_section = ''A'', q_label = ''1'', q_text = ''What is 2+2?''\<rparr>]"
  by code_simp

section \<open>The text of a question of section A\<close>




















section \<open>The block of a question of section B or C\<close>

definition is_label :: "string \<Rightarrow> bool" where
  \<comment> \<open>\<^verbatim>\<open>lines[i] in {"A","B"}\<close>\<close>
  "is_label l = (l = ''A'' \<or> l = ''B'')"

definition label_lines :: "string list \<Rightarrow> nat \<Rightarrow> string list" where
  \<comment> \<open>the lines that are exactly A or B and come before any body content, among the lines of
      the block that are neither excluded nor the marker\<close>
  "label_lines lines i = takeWhile is_label (filter kept (block_lines lines i))"

definition after_labels :: "string list \<Rightarrow> nat \<Rightarrow> string list" where
  \<comment> \<open>the kept lines of the block from the first one that is not such a label\<close>
  "after_labels lines i = dropWhile is_label (filter kept (block_lines lines i))"

lemma absorb_simps:
  "\<not> kept l \<Longrightarrow> absorb (ab, block) l = (ab, block)"
  "kept l \<Longrightarrow> is_label l \<Longrightarrow> absorb (ab, []) l = (l, [])"
  "kept l \<Longrightarrow> \<not> is_label l \<Longrightarrow> absorb (ab, block) l = (ab, block @ [l])"
  "kept l \<Longrightarrow> block \<noteq> [] \<Longrightarrow> absorb (ab, block) l = (ab, block @ [l])"
  by (auto simp: absorb_def is_label_def)

lemma foldl_absorb_nonempty:
  "block \<noteq> [] \<Longrightarrow> foldl absorb (ab, block) ls = (ab, block @ filter kept ls)"
proof (induction ls arbitrary: block)
  case Nil
  show ?case by simp
next
  case (Cons l ls)
  show ?case
  proof (cases "kept l")
    case True
    with Cons.prems have "absorb (ab, block) l = (ab, block @ [l])"
      by (simp add: absorb_simps)
    with Cons.IH[of "block @ [l]"] True show ?thesis by simp
  next
    case False
    then have "absorb (ab, block) l = (ab, block)"
      by (simp add: absorb_simps)
    with Cons.IH[OF Cons.prems] False show ?thesis by simp
  qed
qed

lemma foldl_absorb_empty:
  "foldl absorb (ab, []) ls =
     (if takeWhile is_label (filter kept ls) = [] then ab
      else last (takeWhile is_label (filter kept ls)),
      dropWhile is_label (filter kept ls))"
proof (induction ls arbitrary: ab)
  case Nil
  show ?case by simp
next
  case (Cons l ls)
  show ?case
  proof (cases "kept l")
    case False
    then have "absorb (ab, []) l = (ab, [])"
      by (simp add: absorb_simps)
    with Cons.IH[of ab] False show ?thesis by simp
  next
    case True
    show ?thesis
    proof (cases "is_label l")
      case lab: True
      with True have "absorb (ab, []) l = (l, [])"
        by (simp add: absorb_simps)
      with Cons.IH[of l] True lab show ?thesis by simp
    next
      case lab: False
      with True have "absorb (ab, []) l = (ab, [l])"
        using absorb_simps(3)[of l ab "[]"] by simp
      with foldl_absorb_nonempty[of "[l]" ab ls] True lab show ?thesis by simp
    qed
  qed
qed

lemma collect_block_labels:
  "collect_block lines i ab [] =
     Inr (i + length (block_lines lines i),
          if label_lines lines i = [] then ab else last (label_lines lines i),
          after_labels lines i)"
  by (simp add: collect_block_eq foldl_absorb_empty label_lines_def after_labels_def)

lemma collect_block_body:
  "block \<noteq> [] \<Longrightarrow>
   collect_block lines i ab block =
     Inr (i + length (block_lines lines i), ab, block @ filter kept (block_lines lines i))"
  by (simp add: collect_block_eq foldl_absorb_nonempty)

lemma label_continues: "is_label l \<Longrightarrow> continues l \<and> kept l"
  by (auto simp: is_label_def continues_def kept_def match_next_open_def take_num_def
      is_digit_def lower_def lower_char_def upper_ascii_def lower_ascii_def upper_latin1_def
      lower_latin1_def is_excluded_def EXCLUDE_SUBSTRS_def)

lemma collect_block_label_step:
  assumes "i < length lines" and "is_label (lines ! i)"
  shows "collect_block lines i ab [] = collect_block lines (i + 1) (lines ! i) []"
proof -
  from label_continues[OF assms(2)] have c: "continues (lines ! i)" and k: "kept (lines ! i)"
    by simp_all
  have "block_lines lines i = lines ! i # block_lines lines (Suc i)"
    using assms(1) c by (rule block_lines_step)
  then show ?thesis
    using k assms(2) by (simp add: collect_block_eq absorb_simps)
qed

text \<open>
  C3, as the code has it: while the block is still empty, a line that is exactly A or B sets
  the variant whatever the variant was, also one taken from the opening line. The loop returns
  the last of these label lines as the variant (the given variant only when there is none) and
  the kept lines after them as the block.
\<close>

theorem deferred_label_overwrites:
  "collect_block lines i ab [] =
     Inr (i + length (block_lines lines i),
          if label_lines lines i = [] then ab else last (label_lines lines i),
          after_labels lines i)
   \<and> (i < length lines \<and> is_label (lines ! i)
        \<longrightarrow> collect_block lines i ab [] = collect_block lines (i + 1) (lines ! i) [])"
  using collect_block_labels collect_block_label_step by blast

theorem deferred_label_overwrites_witness:
  "1 < length [''7 A'', ''B'', ''Explain.''] \<and> is_label ([''7 A'', ''B'', ''Explain.''] ! 1)
   \<and> collect_block [''7 A'', ''B'', ''Explain.''] 1 ''A'' [] =
        collect_block [''7 A'', ''B'', ''Explain.''] (1 + 1) ([''7 A'', ''B'', ''Explain.''] ! 1) []
   \<and> collect_block [''7 A'', ''B'', ''Explain.''] 1 ''A'' [] = Inr (3, ''B'', [''Explain.''])"
proof -
  have h: "1 < length [''7 A'', ''B'', ''Explain.''] \<and> is_label ([''7 A'', ''B'', ''Explain.''] ! 1)"
    by (simp add: is_label_def)
  have e: "collect_block [''7 A'', ''B'', ''Explain.''] 1 ''A'' [] = Inr (3, ''B'', [''Explain.''])"
    by code_simp
  from h e deferred_label_overwrites[of "[''7 A'', ''B'', ''Explain.'']" 1 "''A''"]
  show ?thesis
    by (intro conjI) simp_all
qed

text \<open>
  The opening line \<^verbatim>\<open>7 A\<close> sets the variant A; the line \<^verbatim>\<open>B\<close> after it replaces it.
\<close>

theorem deferred_label_counterexample:
  "match_open_bc ''7 A'' = Some (''7'', Some ''A'', [])
   \<and> extract_questions [''Section B'', ''7 A'', ''B'', ''Explain.''] =
       Inr [\<lparr>q_section = ''B'', q_label = ''7 B'', q_text = ''Explain.''\<rparr>]"
  by code_simp

section \<open>The opening line of a block and the noise filter\<close>

lemma startswith_iff: "startswith s p \<longleftrightarrow> (\<exists>q. s = p @ q)"
  by (induction s p rule: startswith.induct) auto

lemma contains_iff: "contains s key \<longleftrightarrow> (\<exists>p q. s = p @ key @ q)"
proof (induction s)
  case Nil
  show ?case by simp
next
  case (Cons c cs)
  have "(\<exists>p q. c # cs = p @ key @ q) \<longleftrightarrow>
        (\<exists>q. c # cs = key @ q) \<or> (\<exists>p q. cs = p @ key @ q)"
  proof
    assume "\<exists>p q. c # cs = p @ key @ q"
    then obtain p q where e: "c # cs = p @ key @ q" by blast
    show "(\<exists>q. c # cs = key @ q) \<or> (\<exists>p q. cs = p @ key @ q)"
    proof (cases p)
      case Nil
      with e show ?thesis by auto
    next
      case (Cons a p')
      with e have "cs = p' @ key @ q" by simp
      then show ?thesis by blast
    qed
  next
    assume "(\<exists>q. c # cs = key @ q) \<or> (\<exists>p q. cs = p @ key @ q)"
    then show "\<exists>p q. c # cs = p @ key @ q"
    proof
      assume "\<exists>q. c # cs = key @ q"
      then obtain q where "c # cs = [] @ key @ q" by auto
      then show ?thesis by blast
    next
      assume "\<exists>p q. cs = p @ key @ q"
      then obtain p q where "c # cs = (c # p) @ key @ q" by auto
      then show ?thesis by blast
    qed
  qed
  with Cons show ?case
    by (simp add: startswith_iff)
qed

lemma contains_inside: "contains m key \<Longrightarrow> contains (p @ m @ q) key"
proof -
  assume "contains m key"
  then obtain a b where "m = a @ key @ b"
    by (auto simp: contains_iff)
  then have "p @ m @ q = (p @ a) @ key @ (b @ q)"
    by simp
  then show ?thesis
    unfolding contains_iff by blast
qed

lemma is_excluded_inside: "is_excluded m \<Longrightarrow> is_excluded (p @ m @ q)"
  by (auto simp: is_excluded_def lower_def list_ex_iff intro: contains_inside)

lemma take_num_append: "take_num s = Some (qnum, r) \<Longrightarrow> s = qnum @ r"
  by (auto simp: take_num_def split: list.splits if_splits)

lemma rest_to_end_inside: "rest_to_end r = Some rest \<Longrightarrow> \<exists>q. r = rest @ q"
proof -
  assume a: "rest_to_end r = Some rest"
  show ?thesis
  proof (cases "CHR 0x0A \<in> set r")
    case False
    with a show ?thesis by (simp add: rest_to_end_def)
  next
    case True
    then have "r \<noteq> []" by auto
    then have "r = butlast r @ [last r]" by simp
    moreover from a True have "rest = butlast r"
      by (simp add: rest_to_end_def split: if_splits)
    ultimately show ?thesis by metis
  qed
qed

lemma dropWhile_inside: "\<exists>p. s = p @ dropWhile P s"
  by (metis takeWhile_dropWhile_id)

lemma match_open_bc_inside:
  assumes "match_open_bc line = Some (qnum, ab_group, rest)"
  shows "\<exists>p q. line = p @ rest @ q"
proof -
  from match_open_bc_parts[OF assms] obtain r r2
    where t: "take_num line = Some (qnum, r)"
      and v: "take_variant (dropWhile is_space r) = (ab_group, r2)"
      and e: "rest_to_end (dropWhile is_space r2) = Some rest"
    by blast
  define r1 where "r1 = dropWhile is_space r"
  obtain p1 where 1: "r = p1 @ r1"
    unfolding r1_def using dropWhile_inside by blast
  from v have "r1 = [] @ r2 \<or> r1 = [hd r1] @ r2"
    by (auto simp: take_variant_def r1_def split: list.splits if_splits)
  then obtain p2 where 2: "r1 = p2 @ r2"
    by blast
  obtain p3 where 3: "r2 = p3 @ dropWhile is_space r2"
    using dropWhile_inside by blast
  obtain q where 4: "dropWhile is_space r2 = rest @ q"
    using rest_to_end_inside[OF e] by blast
  have "line = (qnum @ p1 @ p2 @ p3) @ rest @ q"
    using take_num_append[OF t] 1 2 3 4 by simp
  then show ?thesis by blast
qed

lemma match_open_bc_not_excluded:
  "match_open_bc line = Some (qnum, ab_group, rest) \<Longrightarrow> \<not> is_excluded line \<Longrightarrow>
   \<not> is_excluded rest"
  using match_open_bc_inside is_excluded_inside by blast

section \<open>The question of a block\<close>

definition variant_of :: "string option \<Rightarrow> string \<Rightarrow> string list \<Rightarrow> nat \<Rightarrow> string" where
  \<comment> \<open>the variant of a block that opens with the groups \<^verbatim>\<open>ab_group\<close> and \<^verbatim>\<open>rest\<close> and goes on
      at the line \<^verbatim>\<open>j\<close>\<close>
  "variant_of ab_group rest lines j =
     (if rest \<noteq> [] \<or> label_lines lines j = []
      then (case ab_group of None \<Rightarrow> [] | Some a \<Rightarrow> a)
      else last (label_lines lines j))"

definition body_tail :: "string \<Rightarrow> string list \<Rightarrow> nat \<Rightarrow> string list" where
  \<comment> \<open>the lines that the block takes after its opening line\<close>
  "body_tail rest lines j =
     (if rest \<noteq> [] then filter kept (block_lines lines j) else after_labels lines j)"

definition emit_bc ::
  "scan_state \<Rightarrow> string list \<Rightarrow> string \<Rightarrow> string \<Rightarrow> string option \<Rightarrow> string \<Rightarrow> scan_state" where
  \<comment> \<open>the state after the question of a block is appended\<close>
  "emit_bc st lines sec qnum ab_group rest =
     st\<lparr>result := result st @
           [\<lparr>q_section = sec,
             q_label = strip (qnum @ '' '' @ variant_of ab_group rest lines (pos st + 1)),
             q_text = join '' '' ((if rest \<noteq> [] then [rest] else [])
                                  @ body_tail rest lines (pos st + 1))\<rparr>],
        pos := pos st + 1 + length (block_lines lines (pos st + 1))\<rparr>"

lemma section_bc_eq:
  assumes "match_open_bc line = Some (qnum, ab_group, rest)" and "sec = ''B'' \<or> sec = ''C''"
  shows "section_bc lines st sec line = Inr (emit_bc st lines sec qnum ab_group rest)"
proof (cases "rest = []")
  case True
  with assms show ?thesis
    by (simp add: section_bc_def Let_def collect_block_labels emit_bc_def variant_of_def
        body_tail_def)
next
  case False
  with assms show ?thesis
    by (simp add: section_bc_def Let_def collect_block_body emit_bc_def variant_of_def
        body_tail_def)
qed

lemma loop_body_bc:
  assumes "pos st < length lines" and "cur_section st = Some sec"
    and "sec = ''B'' \<or> sec = ''C''"
    and "\<not> is_header (lines ! pos st)" and "\<not> is_excluded (lines ! pos st)"
  shows "loop_body lines st = section_bc lines st sec (lines ! pos st)"
  using assms by (auto simp: loop_body_def Let_def line_at_def is_header_def)

lemma body_tail_kept: "list_all kept (body_tail rest lines j)"
  by (auto simp: body_tail_def after_labels_def list_all_iff dest: set_dropWhileD)

text \<open>
  C5, as the code has it: the body of a question of section B or C is the remainder of its
  opening line, when there is one, followed by lines of the block, joined by single spaces.
  None of these following lines is the marker \<^verbatim>\<open>(OR)\<close> or matches the noise filter, and the
  remainder of the opening line does not match the noise filter.
\<close>

theorem block_body_filtered:
  assumes "pos st < length lines" and "cur_section st = Some sec"
    and "sec = ''B'' \<or> sec = ''C''"
    and "\<not> is_header (lines ! pos st)" and "\<not> is_excluded (lines ! pos st)"
    and "match_open_bc (lines ! pos st) = Some (qnum, ab_group, rest)"
  shows "loop_body lines st = Inr (emit_bc st lines sec qnum ab_group rest)
         \<and> q_text (last (result (emit_bc st lines sec qnum ab_group rest))) =
             join '' '' ((if rest \<noteq> [] then [rest] else []) @ body_tail rest lines (pos st + 1))
         \<and> \<not> is_excluded rest
         \<and> list_all (\<lambda>l. \<not> is_excluded l \<and> l \<noteq> ''(OR)'') (body_tail rest lines (pos st + 1))"
proof (intro conjI)
  show "loop_body lines st = Inr (emit_bc st lines sec qnum ab_group rest)"
    using loop_body_bc[OF assms(1-5)] section_bc_eq[OF assms(6,3)] by simp
  show "q_text (last (result (emit_bc st lines sec qnum ab_group rest))) =
          join '' '' ((if rest \<noteq> [] then [rest] else []) @ body_tail rest lines (pos st + 1))"
    by (simp add: emit_bc_def)
  show "\<not> is_excluded rest"
    using assms(6,5) by (rule match_open_bc_not_excluded)
  show "list_all (\<lambda>l. \<not> is_excluded l \<and> l \<noteq> ''(OR)'') (body_tail rest lines (pos st + 1))"
    using body_tail_kept[of rest lines "pos st + 1"] by (simp add: kept_def[abs_def])
qed

theorem block_body_filtered_witness:
  "pos \<lparr>cur_section = Some ''B'', result = [], pos = 1\<rparr>
     < length [''Section B'', ''7 A Explain'', ''(OR)'', ''Batch: 2023'', ''this (OR) that'', ''8 Next'']
   \<and> \<not> is_header ''7 A Explain'' \<and> \<not> is_excluded ''7 A Explain''
   \<and> match_open_bc ''7 A Explain'' = Some (''7'', Some ''A'', ''Explain'')
   \<and> loop_body [''Section B'', ''7 A Explain'', ''(OR)'', ''Batch: 2023'', ''this (OR) that'', ''8 Next'']
         \<lparr>cur_section = Some ''B'', result = [], pos = 1\<rparr> =
       Inr \<lparr>cur_section = Some ''B'',
            result = [\<lparr>q_section = ''B'', q_label = ''7 A'',
                       q_text = ''Explain this (OR) that''\<rparr>],
            pos = 5\<rparr>
   \<and> body_tail ''Explain''
         [''Section B'', ''7 A Explain'', ''(OR)'', ''Batch: 2023'', ''this (OR) that'', ''8 Next''] 2
       = [''this (OR) that'']
   \<and> \<not> is_excluded ''Explain''
   \<and> list_all (\<lambda>l. \<not> is_excluded l \<and> l \<noteq> ''(OR)'') [''this (OR) that'']"
proof -
  let ?L = "[''Section B'', ''7 A Explain'', ''(OR)'', ''Batch: 2023'', ''this (OR) that'', ''8 Next'']"
  let ?st = "\<lparr>cur_section = Some ''B'', result = [], pos = 1\<rparr>"
  have h1: "pos ?st < length ?L" by simp
  have h2: "cur_section ?st = Some ''B''" by simp
  have h3: "''B'' = ''B'' \<or> ''B'' = ''C''" by simp
  have h4: "\<not> is_header (?L ! pos ?st)" by code_simp
  have h5: "\<not> is_excluded (?L ! pos ?st)" by code_simp
  have h6: "match_open_bc (?L ! pos ?st) = Some (''7'', Some ''A'', ''Explain'')" by code_simp
  have e: "emit_bc ?st ?L ''B'' ''7'' (Some ''A'') ''Explain'' =
       \<lparr>cur_section = Some ''B'',
        result = [\<lparr>q_section = ''B'', q_label = ''7 A'', q_text = ''Explain this (OR) that''\<rparr>],
        pos = 5\<rparr>"
    by code_simp
  have b: "body_tail ''Explain'' ?L 2 = [''this (OR) that'']"
    by code_simp
  then have b': "body_tail ''Explain'' ?L (Suc (Suc 0)) = [''this (OR) that'']"
    by (simp only: numeral_2_eq_2)
  from block_body_filtered[OF h1 h2 h3 h4 h5 h6] h1 h4 h5 h6 e b b' show ?thesis
    by simp
qed

text \<open>
  The marker inside a longer line stays in the body.
\<close>

theorem block_body_marker_counterexample:
  "extract_questions [''Section B'', ''7 A Explain'', ''this (OR) that''] =
     Inr [\<lparr>q_section = ''B'', q_label = ''7 A'', q_text = ''Explain this (OR) that''\<rparr>]
   \<and> contains ''Explain this (OR) that'' ''(OR)''"
  by code_simp

section \<open>A capital A or B after the number\<close>

lemma take_num_digits:
  assumes "num \<noteq> []" and "length num \<le> 2" and "list_all is_digit num"
    and "r = [] \<or> \<not> is_digit (hd r)"
  shows "take_num (num @ r) = Some (num, r)"
proof -
  from assms(1,2) consider d where "num = [d]" | d e where "num = [d, e]"
    by (cases num; cases "tl num"; cases "tl (tl num)") auto
  then show ?thesis
  proof cases
    case 1
    with assms(3,4) show ?thesis
      by (cases r) (auto simp: take_num_def)
  next
    case 2
    with assms(3) show ?thesis
      by (simp add: take_num_def)
  qed
qed

lemma strip_id: "s \<noteq> [] \<Longrightarrow> \<not> is_space (hd s) \<Longrightarrow> \<not> is_space (last s) \<Longrightarrow> strip s = s"
proof -
  assume a: "s \<noteq> []" "\<not> is_space (hd s)" "\<not> is_space (last s)"
  then have "dropWhile is_space s = s"
    by (cases s) simp_all
  moreover from a have "dropWhile is_space (rev s) = rev s"
    by (cases "rev s") (simp_all add: last_rev[symmetric] hd_rev)
  ultimately show ?thesis
    by (simp add: strip_def)
qed

lemma letter_ab: "c = CHR ''A'' \<or> c = CHR ''B'' \<Longrightarrow> \<not> is_space c \<and> \<not> is_digit c"
  by (auto simp: is_space_def is_digit_def)

lemma match_open_bc_letter:
  assumes num: "num \<noteq> []" "length num \<le> 2" "list_all is_digit num"
    and sp: "list_all is_space sp"
    and c: "c = CHR ''A'' \<or> c = CHR ''B''"
    and w: "w \<noteq> []" "\<not> is_space (hd w)" "CHR 0x0A \<notin> set w"
  shows "match_open_bc (num @ sp @ c # w) = Some (num, Some [c], w)"
proof -
  have nd: "sp @ c # w = [] \<or> \<not> is_digit (hd (sp @ c # w))"
    using sp letter_ab[OF c] by (cases sp) (auto simp: is_space_def is_digit_def)
  have t: "take_num (num @ sp @ c # w) = Some (num, sp @ c # w)"
    using num nd by (rule take_num_digits)
  have d: "dropWhile is_space (sp @ c # w) = c # w"
    using sp letter_ab[OF c] by (simp add: dropWhile_append list_all_iff)
  have v: "take_variant (c # w) = (Some [c], w)"
    using c by (auto simp: take_variant_def)
  have d2: "dropWhile is_space w = w"
    using w(1,2) by (cases w) simp_all
  have e: "rest_to_end w = Some w"
    using w(3) by (simp add: rest_to_end_def)
  show ?thesis
    by (simp add: match_open_bc_def t d v d2 e)
qed

text \<open>
  C10. In section B or C, on an opening line made of the number, optional whitespace, and a
  word that starts with a capital A or B, the capital is taken as the variant: the label is
  the number, a space and that letter, and the body starts with the rest of the word.
\<close>

theorem capital_taken_as_variant:
  assumes "pos st < length lines" and "cur_section st = Some sec"
    and "sec = ''B'' \<or> sec = ''C''"
    and "lines ! pos st = num @ sp @ c # w"
    and "\<not> is_header (lines ! pos st)" and "\<not> is_excluded (lines ! pos st)"
    and "num \<noteq> []" and "length num \<le> 2" and "list_all is_digit num"
    and "list_all is_space sp"
    and "c = CHR ''A'' \<or> c = CHR ''B''"
    and "w \<noteq> []" and "\<not> is_space (hd w)" and "CHR 0x0A \<notin> set w"
  shows "loop_body lines st =
           Inr (st\<lparr>result := result st @
                      [\<lparr>q_section = sec, q_label = num @ '' '' @ [c],
                        q_text = join '' '' (w # filter kept (block_lines lines (pos st + 1)))\<rparr>],
                   pos := pos st + 1 + length (block_lines lines (pos st + 1))\<rparr>)"
proof -
  have m: "match_open_bc (lines ! pos st) = Some (num, Some [c], w)"
    unfolding assms(4) using assms(7-14) by (rule match_open_bc_letter)
  have "is_digit (hd num)"
    using assms(7,9) by (cases num) simp_all
  then have "\<not> is_space (hd (num @ '' '' @ [c]))"
    using assms(7) by (simp add: digit_not_space)
  moreover have "\<not> is_space (last (num @ '' '' @ [c]))"
    using letter_ab[OF assms(11)] by simp
  ultimately have l: "strip (num @ '' '' @ [c]) = num @ '' '' @ [c]"
    by (intro strip_id) simp_all
  have "loop_body lines st = Inr (emit_bc st lines sec num (Some [c]) w)"
    using loop_body_bc[OF assms(1,2,3,5,6)] section_bc_eq[OF m assms(3)] by simp
  then show ?thesis
    using assms(12) l by (simp add: emit_bc_def variant_of_def body_tail_def)
qed

theorem capital_taken_as_variant_witness:
  "pos \<lparr>cur_section = Some ''B'', result = [], pos = 1\<rparr>
      < length [''Section B'', ''12 Apples are red'']
   \<and> [''Section B'', ''12 Apples are red''] ! 1 = ''12'' @ '' '' @ CHR ''A'' # ''pples are red''
   \<and> \<not> is_header ''12 Apples are red'' \<and> \<not> is_excluded ''12 Apples are red''
   \<and> list_all is_digit ''12'' \<and> list_all is_space '' ''
   \<and> \<not> is_space (hd ''pples are red'') \<and> CHR 0x0A \<notin> set ''pples are red''
   \<and> loop_body [''Section B'', ''12 Apples are red'']
         \<lparr>cur_section = Some ''B'', result = [], pos = 1\<rparr> =
       Inr \<lparr>cur_section = Some ''B'',
            result = [\<lparr>q_section = ''B'', q_label = ''12 A'', q_text = ''pples are red''\<rparr>],
            pos = 2\<rparr>
   \<and> extract_questions [''Section B'', ''12 Apples are red''] =
       Inr [\<lparr>q_section = ''B'', q_label = ''12 A'', q_text = ''pples are red''\<rparr>]"
proof -
  let ?L = "[''Section B'', ''12 Apples are red'']"
  let ?st = "\<lparr>cur_section = Some ''B'', result = [], pos = 1\<rparr>"
  have h1: "pos ?st < length ?L" by simp
  have h2: "cur_section ?st = Some ''B''" by simp
  have h3: "''B'' = ''B'' \<or> ''B'' = ''C''" by simp
  have h4: "?L ! pos ?st = ''12'' @ '' '' @ CHR ''A'' # ''pples are red''" by simp
  have h5: "\<not> is_header (?L ! pos ?st)" by code_simp
  have h6: "\<not> is_excluded (?L ! pos ?st)" by code_simp
  have h7: "''12'' \<noteq> []" and h8: "length ''12'' \<le> 2" by simp_all
  have h9: "list_all is_digit ''12''" by code_simp
  have h10: "list_all is_space '' ''" by code_simp
  have h11: "CHR ''A'' = CHR ''A'' \<or> CHR ''A'' = CHR ''B''" by simp
  have h12: "''pples are red'' \<noteq> []" by simp
  have h13: "\<not> is_space (hd ''pples are red'')" by code_simp
  have h14: "CHR 0x0A \<notin> set ''pples are red''" by simp
  have "block_lines ?L 2 = []" by code_simp
  then have b: "block_lines ?L (Suc (Suc 0)) = []"
    by (simp only: numeral_2_eq_2)
  have x: "extract_questions ?L =
       Inr [\<lparr>q_section = ''B'', q_label = ''12 A'', q_text = ''pples are red''\<rparr>]"
    by code_simp
  from capital_taken_as_variant[OF h1 h2 h3 h4 h5 h6 h7 h8 h9 h10 h11 h12 h13 h14]
    h5 h6 h9 h10 h13 h14 b x
  show ?thesis
    by simp
qed

section \<open>The noise filter in section A\<close>









section \<open>Where the questions come from\<close>

text \<open>
  An iteration of the main loop appends at most one question. In section A it is the question
  of \<^const>\<open>finish_a\<close>; otherwise it is the question of a block of section B or C, opened by
  a line that is neither a header nor excluded.
\<close>

lemma section_a_cases:
  "section_a lines st line = Inr (st\<lparr>pos := pos st + 1\<rparr>)
   \<or> (\<exists>qnum stem_text j. section_a lines st line = finish_a lines st qnum stem_text j)"
  by (auto simp: section_a_def Let_def line_at_def split: option.splits)

lemma loop_body_cases:
  assumes "pos st < length lines" and "loop_body lines st = Inr st'"
  shows "result st' = result st
         \<or> (cur_section st = Some ''A''
             \<and> (\<exists>qnum stem_text j. loop_body lines st = finish_a lines st qnum stem_text j))
         \<or> (\<exists>sec qnum ab_group rest.
               cur_section st = Some sec \<and> (sec = ''B'' \<or> sec = ''C'')
               \<and> \<not> is_header (lines ! pos st) \<and> \<not> is_excluded (lines ! pos st)
               \<and> match_open_bc (lines ! pos st) = Some (qnum, ab_group, rest)
               \<and> st' = emit_bc st lines sec qnum ab_group rest)"
proof (cases "is_header (lines ! pos st)")
  case True
  with assms show ?thesis
    by (auto simp: loop_body_def Let_def line_at_def is_header_def split: if_splits)
next
  case h: False
  show ?thesis
  proof (cases "cur_section st")
    case None
    with assms h show ?thesis
      by (auto simp: loop_body_def Let_def line_at_def is_header_def)
  next
    case (Some sec)
    show ?thesis
    proof (cases "sec = [] \<or> is_excluded (lines ! pos st)")
      case True
      with assms h Some show ?thesis
        by (auto simp: loop_body_def Let_def line_at_def is_header_def)
    next
      case x: False
      show ?thesis
      proof (cases "sec = ''A''")
        case True
        with assms(1) h Some x have "loop_body lines st = section_a lines st (lines ! pos st)"
          by (simp add: loop_body_def Let_def line_at_def is_header_def)
        with section_a_cases[of lines st "lines ! pos st"] assms(2) True Some show ?thesis
          by auto
      next
        case False
        with assms(1) h Some x
        have b: "loop_body lines st = section_bc lines st sec (lines ! pos st)"
          by (simp add: loop_body_def Let_def line_at_def is_header_def)
        show ?thesis
        proof (cases "(sec = ''B'' \<or> sec = ''C'') \<and> match_open_bc (lines ! pos st) \<noteq> None")
          case True
          then obtain qnum ab_group rest
            where m: "match_open_bc (lines ! pos st) = Some (qnum, ab_group, rest)"
              and s: "sec = ''B'' \<or> sec = ''C''"
            by auto
          from section_bc_eq[OF m s, of lines st] b assms(2)
          have "st' = emit_bc st lines sec qnum ab_group rest"
            by simp
          with Some s h x m show ?thesis
            by blast
        next
          case False
          with b assms(2) have "st' = st\<lparr>pos := pos st + 1\<rparr>"
            by (auto simp: section_bc_def Let_def split: option.splits)
          then show ?thesis by simp
        qed
      qed
    qed
  qed
qed

section \<open>The scenarios of the specification\<close>

lemma scenario_1:
  "extract_questions [''Section A'', ''1 What is 2+2?'', ''A 3'', ''B 4'', ''C 5'', ''D 6''] =
     Inr [\<lparr>q_section = ''A'', q_label = ''1'',
           q_text = ''What is 2+2?'' @ [CHR 0x0A] @ ''A. 3'' @ [CHR 0x0A] @ ''B. 4''
                    @ [CHR 0x0A] @ ''C. 5'' @ [CHR 0x0A] @ ''D. 6''\<rparr>]"
  by code_simp

lemma scenario_2:
  "extract_questions [''Section A'', ''1'', ''What is 2+2?'', ''A 3'', ''B 4''] =
     Inr [\<lparr>q_section = ''A'', q_label = ''1'',
           q_text = ''What is 2+2?'' @ [CHR 0x0A] @ ''A. 3'' @ [CHR 0x0A] @ ''B. 4''\<rparr>]"
  by code_simp

lemma scenario_3:
  "extract_questions [''Section B'', ''7 A Explain recursion.'', ''(OR)'', ''7 B Explain iteration.''] =
     Inr [\<lparr>q_section = ''B'', q_label = ''7 A'', q_text = ''Explain recursion.''\<rparr>,
          \<lparr>q_section = ''B'', q_label = ''7 B'', q_text = ''Explain iteration.''\<rparr>]"
  by code_simp

end
